theory Spec2Isabelle
  imports Complex_Main
begin

section \<open>The DRIFT search primer (graphrag/query/structured\_search/drift\_search/primer.py)\<close>

text \<open>
  A shallow embedding of \<^verbatim>\<open>PrimerQueryProcessor.expand_query\<close>,
  \<^verbatim>\<open>DRIFTPrimer.split_reports\<close>, \<^verbatim>\<open>DRIFTPrimer.decompose_query\<close> and
  \<^verbatim>\<open>DRIFTPrimer.asearch\<close>. Python strings are \<open>string\<close>, Python integers are
  \<open>int\<close>, an exception is the \<open>Inl\<close> branch of a sum, and a report table (the list of
  \<^verbatim>\<open>CommunityReport\<close> of the processor, the data frame of the primer) is the list of
  its rows.
\<close>

subsection \<open>Data\<close>

datatype error =
  IndexError        \<comment> \<open>\<^verbatim>\<open>secrets.choice\<close> on an empty sequence\<close>
| JSONDecodeError   \<comment> \<open>\<^verbatim>\<open>json.loads\<close> on a malformed document\<close>
| LLMError          \<comment> \<open>whatever the language-model client raises\<close>

record CommunityReport =
  report_id :: string
  full_content :: string

record message =
  role :: string
  content :: string

text \<open>
  The language-model client. \<open>generate\<close> is the synchronous single-turn completion.
  \<open>agenerate\<close> is the asynchronous one; its first argument is the number of the task that
  awaits it, so that two tasks sending the same messages may be answered differently. The
  keyword argument \<^verbatim>\<open>response_format\<close> is a dictionary, here an association list.
\<close>

record ChatOpenAI =
  generate :: "message list \<Rightarrow> error + string"
  agenerate :: "nat \<Rightarrow> message list \<Rightarrow> (string \<times> string) list \<Rightarrow> error + string"

record DRIFTSearchConfig =
  primer_folds :: "int option"   \<comment> \<open>\<open>None\<close> is Python's \<^verbatim>\<open>None\<close>\<close>

record 'enc PrimerQueryProcessor =
  chat_llm :: ChatOpenAI
  token_encoder :: "'enc option"
  reports :: "CommunityReport list"

record 'enc DRIFTPrimer =
  llm :: ChatOpenAI
  config :: DRIFTSearchConfig
  primer_token_encoder :: "'enc option"

record 'json SearchResult =
  response :: "'json list"
  context_data :: "(string \<times> CommunityReport list) list"
  context_text :: string
  completion_time :: real
  llm_calls :: int
  prompt_tokens :: int

text \<open>
  What the module imports and does not define: the token counter
  \<^verbatim>\<open>num_tokens(text, token_encoder=None)\<close>, \<^verbatim>\<open>json.loads\<close>, the rendering
  \<^verbatim>\<open>DRIFT_PRIMER_PROMPT.format(query=..., community_reports=...)\<close> of the prompt
  constant, and \<^verbatim>\<open>str\<close> of a data frame. They are parameters of the model.
\<close>

record ('enc, 'json) externals =
  num_tokens :: "string \<Rightarrow> 'enc option \<Rightarrow> int"
  json_loads :: "string \<Rightarrow> error + 'json"
  DRIFT_PRIMER_PROMPT_format :: "string \<Rightarrow> string \<Rightarrow> string"
  frame_str :: "CommunityReport list \<Rightarrow> string"

text \<open>What a call leaves behind besides its result: model calls and log records, in order.\<close>

datatype event =
  Generate "message list"
| LogWarning string

subsection \<open>Python primitives\<close>

text \<open>\<^verbatim>\<open>sep.join(xs)\<close>\<close>

fun join :: "string \<Rightarrow> string list \<Rightarrow> string" where
  "join sep [] = []"
| "join sep [x] = x"
| "join sep (x # y # ys) = x @ sep @ join sep (y # ys)"

text \<open>
  \<^verbatim>\<open>secrets.choice(seq)\<close>: raises \<^verbatim>\<open>IndexError\<close> on an empty sequence, and
  otherwise returns the element at a random index below the length. The random number is
  the argument \<open>rnd\<close>.
\<close>

definition secrets_choice :: "nat \<Rightarrow> 'a list \<Rightarrow> error + 'a" where
  "secrets_choice rnd seq =
     (if length seq = 0 then Inl IndexError else Inr (seq ! (rnd mod length seq)))"

text \<open>
  A slice bound of \<^verbatim>\<open>seq[start:stop]\<close>: a negative bound counts from the end, and
  every bound is clamped to the sequence.
\<close>

definition slice_bound :: "nat \<Rightarrow> int \<Rightarrow> nat" where
  "slice_bound len i = (if i < 0 then nat (max 0 (int len + i)) else min len (nat i))"

text \<open>\<^verbatim>\<open>reports.iloc[start_idx:end_idx]\<close>\<close>

definition iloc :: "'a list \<Rightarrow> int \<Rightarrow> int \<Rightarrow> 'a list" where
  "iloc rows start stop =
     (let lo = slice_bound (length rows) start; hi = slice_bound (length rows) stop
      in take (hi - lo) (drop lo rows))"

text \<open>\<^verbatim>\<open>x or 1\<close> for an optional integer: \<^verbatim>\<open>None\<close> and \<^verbatim>\<open>0\<close> are falsy.\<close>

definition or_1 :: "int option \<Rightarrow> int" where
  "or_1 x = (case x of None \<Rightarrow> 1 | Some v \<Rightarrow> if v = 0 then 1 else v)"

subsection \<open>The report partitioner\<close>

text \<open>
  The pair \<^verbatim>\<open>(start_idx, end_idx)\<close> that the body of the loop of
  \<^verbatim>\<open>split_reports\<close> computes at \<open>i\<close>. Python's \<^verbatim>\<open>//\<close> is floor division, as
  \<open>div\<close> on \<open>int\<close> is.
\<close>

definition fold_bounds :: "int \<Rightarrow> int \<Rightarrow> int \<Rightarrow> int \<times> int" where
  "fold_bounds num_reports folds i =
     (let start_idx = i * num_reports div folds;
          end_idx = (if i = folds - 1 then num_reports else (i + 1) * num_reports div folds)
      in (start_idx, end_idx))"

text \<open>The bounds of all folds, for \<^verbatim>\<open>i in range(primer_folds)\<close>.\<close>

definition fold_ranges :: "DRIFTSearchConfig \<Rightarrow> nat \<Rightarrow> (int \<times> int) list" where
  "fold_ranges cfg n =
     (let num_reports = int n; folds = or_1 (primer_folds cfg)
      in map (fold_bounds num_reports folds) [0 .. folds - 1])"

definition split_reports :: "DRIFTSearchConfig \<Rightarrow> 'a list \<Rightarrow> 'a list list" where
  "split_reports cfg rows =
     map (\<lambda>(start_idx, end_idx). iloc rows start_idx end_idx) (fold_ranges cfg (length rows))"

definition fold_sizes :: "DRIFTSearchConfig \<Rightarrow> 'a list \<Rightarrow> nat list" where
  "fold_sizes cfg rows = map length (split_reports cfg rows)"

text \<open>
  The index \<^verbatim>\<open>i * num_reports // primer_folds\<close> on natural numbers; the bounds of
  fold \<open>i\<close> are \<open>cut n k i\<close> and \<open>cut n k (Suc i)\<close>.
\<close>

definition cut :: "nat \<Rightarrow> nat \<Rightarrow> nat \<Rightarrow> nat" where
  "cut n k i = i * n div k"

subsection \<open>The query expander\<close>

definition nl :: string where
  "nl = [CHR 0x0A]"

definition indent :: string where
  "indent = replicate 18 (CHR '' '')"

text \<open>
  The f-string of \<^verbatim>\<open>expand_query\<close>: each of its first three lines ends in the escape
  \<^verbatim>\<open>\n\n\<close> or \<^verbatim>\<open>\n"\<close> and then in the line break of the literal itself, and the
  following line starts with eighteen blanks.
\<close>

definition expand_prompt :: "string \<Rightarrow> string \<Rightarrow> string" where
  "expand_prompt query template =
     ''Create a hypothetical answer to the following query: '' @ query @ nl @ nl @ nl
     @ indent @ ''Format it to follow the structure of the template below:'' @ nl @ nl @ nl
     @ indent @ template @ nl @ [CHR 0x22] @ nl
     @ indent @ ''Ensure that the hypothetical answer does not reference new named entities that are not present in the original query.''"

definition expand_messages :: "string \<Rightarrow> string \<Rightarrow> message list" where
  "expand_messages query template = [\<lparr>role = ''user'', content = expand_prompt query template\<rparr>]"

text \<open>
  \<^verbatim>\<open>expand_query\<close> returns its result (or the exception) and the events of the call.
  The token counter is called with one argument, so with the default encoding \<open>None\<close>.
\<close>

definition expand_query ::
  "'enc PrimerQueryProcessor \<Rightarrow> ('enc, 'json) externals \<Rightarrow> nat \<Rightarrow> string
     \<Rightarrow> (error + string \<times> int) \<times> event list" where
  "expand_query self ext rnd query =
     (case secrets_choice rnd (reports self) of
        Inl e \<Rightarrow> (Inl e, [])
      | Inr report \<Rightarrow>
          (let template = full_content report;
               messages = expand_messages query template
           in case generate (chat_llm self) messages of
                Inl e \<Rightarrow> (Inl e, [Generate messages])
              | Inr text \<Rightarrow>
                  (let token_ct = num_tokens ext (text @ query) None
                   in if text = []
                      then (Inr (query, token_ct),
                            [Generate messages,
                             LogWarning (''Failed to generate expansion for query: '' @ query)])
                      else (Inr (text, token_ct), [Generate messages]))))"

subsection \<open>The query decomposer\<close>

definition primer_prompt :: "('enc, 'json) externals \<Rightarrow> string \<Rightarrow> CommunityReport list \<Rightarrow> string" where
  "primer_prompt ext query rows =
     (let community_reports = join (nl @ nl) (map full_content rows)
      in DRIFT_PRIMER_PROMPT_format ext query community_reports)"

definition primer_messages ::
  "('enc, 'json) externals \<Rightarrow> string \<Rightarrow> CommunityReport list \<Rightarrow> message list" where
  "primer_messages ext query rows = [\<lparr>role = ''user'', content = primer_prompt ext query rows\<rparr>]"

definition json_object :: "(string \<times> string) list" where
  "json_object = [(''type'', ''json_object'')]"

text \<open>\<^verbatim>\<open>decompose_query\<close>, run as task number \<open>task\<close>.\<close>

definition decompose_query ::
  "'enc DRIFTPrimer \<Rightarrow> ('enc, 'json) externals \<Rightarrow> nat \<Rightarrow> string \<Rightarrow> CommunityReport list
     \<Rightarrow> error + 'json \<times> int" where
  "decompose_query self ext task query rows =
     (let prompt = primer_prompt ext query rows;
          messages = primer_messages ext query rows
      in case agenerate (llm self) task messages json_object of
           Inl e \<Rightarrow> Inl e
         | Inr raw_response \<Rightarrow>
             (case json_loads ext raw_response of
                Inl e \<Rightarrow> Inl e
              | Inr parsed_response \<Rightarrow>
                  (let token_ct = num_tokens ext (prompt @ raw_response) (primer_token_encoder self)
                   in Inr (parsed_response, token_ct))))"

subsection \<open>The orchestrator\<close>

text \<open>
  \<^verbatim>\<open>tqdm_asyncio.gather(*fs)\<close> tags every awaitable with its position, awaits the tagged
  awaitables in the order in which they complete, and returns the results sorted by tag;
  the first exception met on the way is raised. The order of completion is that of the
  latencies of the tasks: \<open>latency i\<close> is the time at which task \<open>i\<close> completes.
\<close>

fun await_all :: "(nat \<times> (error + 'a)) list \<Rightarrow> error + (nat \<times> 'a) list" where
  "await_all [] = Inr []"
| "await_all ((i, f) # fs) =
     (case f of
        Inl e \<Rightarrow> Inl e
      | Inr x \<Rightarrow> (case await_all fs of Inl e \<Rightarrow> Inl e | Inr res \<Rightarrow> Inr ((i, x) # res)))"

definition as_completed :: "(nat \<Rightarrow> nat) \<Rightarrow> (nat \<times> 'a) list \<Rightarrow> (nat \<times> 'a) list" where
  "as_completed latency ifs = sort_key (\<lambda>(i, f). latency i) ifs"

definition gather :: "(nat \<Rightarrow> nat) \<Rightarrow> (error + 'a) list \<Rightarrow> error + 'a list" where
  "gather latency fs =
     (let ifs = zip [0..<length fs] fs
      in case await_all (as_completed latency ifs) of
           Inl e \<Rightarrow> Inl e
         | Inr res \<Rightarrow> Inr (map snd (sort_key fst res)))"

text \<open>The tasks of \<^verbatim>\<open>asearch\<close>: one \<^verbatim>\<open>decompose_query\<close> per fold, in fold order.\<close>

definition tasks ::
  "'enc DRIFTPrimer \<Rightarrow> ('enc, 'json) externals \<Rightarrow> string \<Rightarrow> CommunityReport list
     \<Rightarrow> (error + 'json \<times> int) list" where
  "tasks self ext query top_k_reports =
     (let report_folds = split_reports (config self) top_k_reports
      in map (\<lambda>(i, rows). decompose_query self ext i query rows)
           (zip [0..<length report_folds] report_folds))"

text \<open>
  \<^verbatim>\<open>asearch\<close>; \<open>start_time\<close> and \<open>end_time\<close> are the two readings of
  \<^verbatim>\<open>time.time()\<close>.
\<close>

definition asearch ::
  "'enc DRIFTPrimer \<Rightarrow> ('enc, 'json) externals \<Rightarrow> (nat \<Rightarrow> nat) \<Rightarrow> real \<Rightarrow> real \<Rightarrow> string
     \<Rightarrow> CommunityReport list \<Rightarrow> error + 'json SearchResult" where
  "asearch self ext latency start_time end_time query top_k_reports =
     (case gather latency (tasks self ext query top_k_reports) of
        Inl e \<Rightarrow> Inl e
      | Inr results_with_tokens \<Rightarrow>
          (let elapsed = end_time - start_time
           in Inr \<lparr>response = map fst results_with_tokens,
                   context_data = [(''top_k_reports'', top_k_reports)],
                   context_text = frame_str ext top_k_reports,
                   completion_time = elapsed,
                   llm_calls = 2,
                   prompt_tokens = sum_list (map snd results_with_tokens)\<rparr>))"

subsection \<open>Concrete collaborators\<close>

text \<open>
  A token counter that counts characters and multiplies by the encoder when there is one,
  a parser that accepts the documents starting with a brace, a prompt template, a model
  that completes with the empty string and answers a task with its prompt in braces, and
  a model whose answer to task 1 is not a document.
\<close>

definition toy_num_tokens :: "string \<Rightarrow> int option \<Rightarrow> int" where
  "toy_num_tokens text enc =
     (case enc of None \<Rightarrow> int (length text) | Some w \<Rightarrow> w * int (length text))"

definition toy_json_loads :: "string \<Rightarrow> error + string" where
  "toy_json_loads s =
     (case s of [] \<Rightarrow> Inl JSONDecodeError
      | c # cs \<Rightarrow> if c = CHR 0x7B then Inr s else Inl JSONDecodeError)"

definition toy_format :: "string \<Rightarrow> string \<Rightarrow> string" where
  "toy_format query community_reports = query @ '':'' @ community_reports"

definition toy_frame_str :: "CommunityReport list \<Rightarrow> string" where
  "toy_frame_str rows = join nl (map full_content rows)"

definition toy_externals :: "(int, string) externals" where
  "toy_externals =
     \<lparr>num_tokens = toy_num_tokens, json_loads = toy_json_loads,
      DRIFT_PRIMER_PROMPT_format = toy_format, frame_str = toy_frame_str\<rparr>"

definition silent_generate :: "message list \<Rightarrow> error + string" where
  "silent_generate messages = Inr []"

definition echo_agenerate ::
  "nat \<Rightarrow> message list \<Rightarrow> (string \<times> string) list \<Rightarrow> error + string" where
  "echo_agenerate task messages response_format =
     Inr ([CHR 0x7B] @ concat (map content messages) @ [CHR 0x7D])"

definition garbled_agenerate ::
  "nat \<Rightarrow> message list \<Rightarrow> (string \<times> string) list \<Rightarrow> error + string" where
  "garbled_agenerate task messages response_format =
     (if task = 1 then Inr ''not a document'' else echo_agenerate task messages response_format)"

definition toy_llm :: ChatOpenAI where
  "toy_llm = \<lparr>generate = silent_generate, agenerate = echo_agenerate\<rparr>"

definition garbled_llm :: ChatOpenAI where
  "garbled_llm = \<lparr>generate = silent_generate, agenerate = garbled_agenerate\<rparr>"

definition report_A :: CommunityReport where
  "report_A = \<lparr>report_id = ''a'', full_content = ''A''\<rparr>"

definition report_B :: CommunityReport where
  "report_B = \<lparr>report_id = ''b'', full_content = ''B''\<rparr>"

definition report_C :: CommunityReport where
  "report_C = \<lparr>report_id = ''c'', full_content = ''C''\<rparr>"

definition toy_processor :: "CommunityReport list \<Rightarrow> int PrimerQueryProcessor" where
  "toy_processor rows = \<lparr>chat_llm = toy_llm, token_encoder = Some 3, reports = rows\<rparr>"

definition toy_primer :: "ChatOpenAI \<Rightarrow> int option \<Rightarrow> int DRIFTPrimer" where
  "toy_primer model folds =
     \<lparr>llm = model, config = \<lparr>primer_folds = folds\<rparr>, primer_token_encoder = Some 3\<rparr>"

text \<open>Task 0 completes last.\<close>

definition reversed_latency :: "nat \<Rightarrow> nat" where
  "reversed_latency i = 10 - i"

section \<open>Properties of the report partitioner\<close>

lemma upto_eq_map: "[0 .. int k - 1] = map int [0..<k]"
  by (induction k) (auto simp: upto_rec2)

lemma cut_0: "cut n k 0 = 0"
  by (simp add: cut_def)

lemma cut_full: "0 < k \<Longrightarrow> cut n k k = n"
  by (simp add: cut_def)

lemma cut_mono: "i \<le> j \<Longrightarrow> cut n k i \<le> cut n k j"
  unfolding cut_def by (intro div_le_mono mult_le_mono1)

lemma cut_le:
  assumes "i \<le> k"
  shows "cut n k i \<le> n"
proof (cases "k = 0")
  case True
  then show ?thesis by (simp add: cut_def)
next
  case False
  then show ?thesis using cut_mono [OF assms, of n k] cut_full [of k n] by simp
qed

lemma cut_step: "cut n k (Suc i) = cut n k i + n div k + (i * n mod k + n mod k) div k"
proof -
  have "Suc i * n div k = (i * n + n) div k" by (simp add: add.commute)
  also have "\<dots> = i * n div k + n div k + (i * n mod k + n mod k) div k"
    by (rule div_add1_eq)
  finally show ?thesis unfolding cut_def .
qed

lemma carry_le:
  assumes "0 < (k::nat)"
  shows "(a mod k + b mod k) div k \<le> 1"
proof -
  have "a mod k < k" "b mod k < k" using assms by simp_all
  then have "a mod k + b mod k < 2 * k" by linarith
  then have "(a mod k + b mod k) div k < 2" by (rule less_mult_imp_div_less)
  then show ?thesis by simp
qed

lemma size_bounds:
  assumes "0 < k"
  shows "n div k \<le> cut n k (Suc i) - cut n k i"
    and "cut n k (Suc i) - cut n k i \<le> n div k + 1"
proof -
  define c where "c = (i * n mod k + n mod k) div k"
  define q where "q = n div k"
  have "c \<le> 1" unfolding c_def using assms by (rule carry_le)
  moreover have "cut n k (Suc i) = cut n k i + q + c"
    unfolding c_def q_def by (rule cut_step)
  ultimately show "n div k \<le> cut n k (Suc i) - cut n k i"
    and "cut n k (Suc i) - cut n k i \<le> n div k + 1"
    unfolding q_def [symmetric] by linarith+
qed

lemma fold_bounds_nat:
  assumes "i < k"
  shows "fold_bounds (int n) (int k) (int i) = (int (cut n k i), int (cut n k (Suc i)))"
proof -
  have s: "int i * int n div int k = int (cut n k i)"
    by (simp add: zdiv_int cut_def)
  have "(int i + 1) * int n = int (Suc i * n)"
    by (simp add: algebra_simps)
  then have e: "(int i + 1) * int n div int k = int (cut n k (Suc i))"
    unfolding cut_def by (simp only: zdiv_int)
  have l: "int n = int (cut n k (Suc i))" if "int i = int k - 1"
  proof -
    from that have "Suc i = k" by linarith
    with assms show ?thesis using cut_full [of k n] by simp
  qed
  show ?thesis
    unfolding fold_bounds_def Let_def using s e l by simp
qed

lemma fold_ranges_nat:
  assumes "0 < k"
  shows "fold_ranges \<lparr>primer_folds = Some (int k)\<rparr> n =
         map (\<lambda>i. (int (cut n k i), int (cut n k (Suc i)))) [0..<k]"
  using assms by (simp add: fold_ranges_def or_1_def upto_eq_map fold_bounds_nat)

lemma iloc_nat:
  "a \<le> b \<Longrightarrow> b \<le> length rows \<Longrightarrow> iloc rows (int a) (int b) = take (b - a) (drop a rows)"
  by (simp add: iloc_def slice_bound_def)

lemma split_reports_nat:
  assumes "0 < k"
  shows "split_reports \<lparr>primer_folds = Some (int k)\<rparr> rows =
         map (\<lambda>i. take (cut (length rows) k (Suc i) - cut (length rows) k i)
                        (drop (cut (length rows) k i) rows)) [0..<k]"
  using assms
  by (simp add: split_reports_def fold_ranges_nat iloc_nat cut_mono cut_le)

lemma concat_cuts:
  "concat (map (\<lambda>i. take (cut n k (Suc i) - cut n k i) (drop (cut n k i) rows)) [0..<m])
     = take (cut n k m) rows"
proof (induction m)
  case 0
  then show ?case by (simp add: cut_0)
next
  case (Suc m)
  have "cut n k m \<le> cut n k (Suc m)" by (rule cut_mono) simp
  then have "take (cut n k (Suc m)) rows =
     take (cut n k m) rows @ take (cut n k (Suc m) - cut n k m) (drop (cut n k m) rows)"
    using take_add [of "cut n k m" "cut n k (Suc m) - cut n k m" rows] by simp
  with Suc show ?case by simp
qed

lemma concat_split_reports:
  assumes "0 < k"
  shows "concat (split_reports \<lparr>primer_folds = Some (int k)\<rparr> rows) = rows"
  using assms by (simp add: split_reports_nat concat_cuts cut_full)

lemma fold_sizes_nat:
  assumes "0 < k"
  shows "fold_sizes \<lparr>primer_folds = Some (int k)\<rparr> rows =
         map (\<lambda>i. cut (length rows) k (Suc i) - cut (length rows) k i) [0..<k]"
proof -
  have "min (length rows - cut (length rows) k i)
            (cut (length rows) k (Suc i) - cut (length rows) k i)
        = cut (length rows) k (Suc i) - cut (length rows) k i" if "i < k" for i
  proof -
    from that have "cut (length rows) k (Suc i) \<le> length rows"
      by (intro cut_le) simp
    then show ?thesis by simp
  qed
  then show ?thesis
    using assms by (simp add: fold_sizes_def split_reports_nat)
qed

lemma sum_sizes: "(\<Sum>i<m. cut n k (Suc i) - cut n k i) = cut n k m"
proof (induction m)
  case 0
  then show ?case by (simp add: cut_0)
next
  case (Suc m)
  have "cut n k m \<le> cut n k (Suc m)" by (rule cut_mono) simp
  with Suc show ?case by simp
qed

lemma count_zeros:
  assumes "\<And>i. i < m \<Longrightarrow> f i \<le> (1::nat)"
  shows "length (filter (\<lambda>i. f i = 0) [0..<m]) + sum f {..<m} = m"
  using assms
proof (induction m)
  case 0
  then show ?case by simp
next
  case (Suc m)
  then have ih: "length (filter (\<lambda>i. f i = 0) [0..<m]) + sum f {..<m} = m" by simp
  from Suc.prems have "f m = 0 \<or> f m = 1" by (metis le_SucE le_zero_eq lessI One_nat_def)
  with ih show ?case by auto
qed

lemma empty_folds_count:
  assumes "0 < k" and "n < k"
  shows "length (filter (\<lambda>(start_idx, end_idx). start_idx = end_idx)
                  (fold_ranges \<lparr>primer_folds = Some (int k)\<rparr> n)) = k - n"
proof -
  let ?d = "\<lambda>i. cut n k (Suc i) - cut n k i"
  from \<open>n < k\<close> have q: "n div k = 0" by simp
  have le1: "?d i \<le> 1" for i
    using size_bounds(2) [OF \<open>0 < k\<close>, of n i] q by simp
  have zero: "(cut n k i = cut n k (Suc i)) = (cut n k (Suc i) \<le> cut n k i)" for i
    using cut_mono [of i "Suc i" n k] by auto
  have "length (filter (\<lambda>i. ?d i = 0) [0..<k]) + sum ?d {..<k} = k"
    by (rule count_zeros) (rule le1)
  then have "length (filter (\<lambda>i. ?d i = 0) [0..<k]) = k - n"
    using sum_sizes [of n k k] cut_full [OF \<open>0 < k\<close>, of n] by simp
  then show ?thesis
    using \<open>0 < k\<close> by (simp add: fold_ranges_nat filter_map o_def zero)
qed

text \<open>
  C2 (as amended). For a corpus of \<open>n\<close> rows and a fold count \<open>k \<ge> 1\<close>,
  \<^verbatim>\<open>split_reports\<close> returns exactly \<open>k\<close> folds; fold \<open>i\<close> is the half-open range of rows
  from \<open>i * n div k\<close> to \<open>(i + 1) * n div k\<close> (which is \<open>n\<close> for the last fold); the ranges
  lie inside \<open>[0, n)\<close>, are in ascending order and pairwise disjoint, and the concatenation
  of the folds is the corpus. When \<open>k > n\<close> exactly \<open>k - n\<close> of the folds are empty, with
  start equal to end.
\<close>

theorem split_reports_partition:
  assumes "1 \<le> k"
  shows "length (split_reports \<lparr>primer_folds = Some (int k)\<rparr> rows) = k
    \<and> length (fold_ranges \<lparr>primer_folds = Some (int k)\<rparr> (length rows)) = k
    \<and> (\<forall>i<k. fold_ranges \<lparr>primer_folds = Some (int k)\<rparr> (length rows) ! i
               = (int i * int (length rows) div int k, (int i + 1) * int (length rows) div int k))
    \<and> (\<forall>i<k. \<forall>s e. fold_ranges \<lparr>primer_folds = Some (int k)\<rparr> (length rows) ! i = (s, e)
          \<longrightarrow> 0 \<le> s \<and> s \<le> e \<and> e \<le> int (length rows)
              \<and> split_reports \<lparr>primer_folds = Some (int k)\<rparr> rows ! i
                  = take (nat e - nat s) (drop (nat s) rows))
    \<and> (\<forall>i j. i < j \<and> j < k
          \<longrightarrow> snd (fold_ranges \<lparr>primer_folds = Some (int k)\<rparr> (length rows) ! i)
              \<le> fst (fold_ranges \<lparr>primer_folds = Some (int k)\<rparr> (length rows) ! j))
    \<and> concat (split_reports \<lparr>primer_folds = Some (int k)\<rparr> rows) = rows
    \<and> (length rows < k
          \<longrightarrow> length (filter (\<lambda>(start_idx, end_idx). start_idx = end_idx)
                       (fold_ranges \<lparr>primer_folds = Some (int k)\<rparr> (length rows)))
              = k - length rows)"
proof -
  let ?n = "length rows"
  let ?cfg = "\<lparr>primer_folds = Some (int k)\<rparr>"
  from assms have k: "0 < k" by simp
  have R: "fold_ranges ?cfg ?n = map (\<lambda>i. (int (cut ?n k i), int (cut ?n k (Suc i)))) [0..<k]"
    using k by (rule fold_ranges_nat)
  have F: "split_reports ?cfg rows =
           map (\<lambda>i. take (cut ?n k (Suc i) - cut ?n k i) (drop (cut ?n k i) rows)) [0..<k]"
    using k by (rule split_reports_nat)
  have c1: "length (split_reports ?cfg rows) = k" by (simp add: F)
  have c2: "length (fold_ranges ?cfg ?n) = k" by (simp add: R)
  have c3: "fold_ranges ?cfg ?n ! i = (int i * int ?n div int k, (int i + 1) * int ?n div int k)"
    if "i < k" for i
  proof -
    have "(int i + 1) * int ?n = int (Suc i * ?n)" by (simp add: algebra_simps)
    then have "(int i + 1) * int ?n div int k = int (cut ?n k (Suc i))"
      unfolding cut_def by (simp only: zdiv_int)
    moreover have "int i * int ?n div int k = int (cut ?n k i)"
      by (simp add: zdiv_int cut_def)
    ultimately show ?thesis using that by (simp add: R)
  qed
  have c4: "0 \<le> s \<and> s \<le> e \<and> e \<le> int ?n
            \<and> split_reports ?cfg rows ! i = take (nat e - nat s) (drop (nat s) rows)"
    if "i < k" and "fold_ranges ?cfg ?n ! i = (s, e)" for i s e
  proof -
    from that have s: "s = int (cut ?n k i)" and e: "e = int (cut ?n k (Suc i))"
      by (simp_all add: R)
    have "cut ?n k i \<le> cut ?n k (Suc i)" by (rule cut_mono) simp
    moreover have "cut ?n k (Suc i) \<le> ?n" using that(1) by (intro cut_le) simp
    ultimately show ?thesis using that(1) by (simp add: s e F)
  qed
  have c5: "snd (fold_ranges ?cfg ?n ! i) \<le> fst (fold_ranges ?cfg ?n ! j)"
    if "i < j \<and> j < k" for i j
  proof -
    from that have "cut ?n k (Suc i) \<le> cut ?n k j" by (intro cut_mono) simp
    with that show ?thesis by (simp add: R)
  qed
  have c6: "concat (split_reports ?cfg rows) = rows"
    using k by (rule concat_split_reports)
  have c7: "length (filter (\<lambda>(start_idx, end_idx). start_idx = end_idx) (fold_ranges ?cfg ?n))
            = k - ?n" if "?n < k"
    using k that by (rule empty_folds_count)
  from c1 c2 c3 c4 c5 c6 c7 show ?thesis by blast
qed

theorem split_reports_partition_witness:
  "(1::nat) \<le> 3 \<and> length ''ab'' < 3
   \<and> split_reports \<lparr>primer_folds = Some (int 3)\<rparr> ''ab'' = ['''', ''a'', ''b'']
   \<and> concat (split_reports \<lparr>primer_folds = Some (int 3)\<rparr> ''ab'') = ''ab''
   \<and> length (filter (\<lambda>(start_idx, end_idx). start_idx = end_idx)
               (fold_ranges \<lparr>primer_folds = Some (int 3)\<rparr> (length ''ab''))) = 3 - length ''ab''"
proof -
  have h: "(1::nat) \<le> 3" by simp
  have v: "split_reports \<lparr>primer_folds = Some (int 3)\<rparr> ''ab'' = ['''', ''a'', ''b'']"
    by (simp add: split_reports_def fold_ranges_def fold_bounds_def or_1_def iloc_def
        slice_bound_def upto_rec1)
  from split_reports_partition [OF h, of "''ab''"] v show ?thesis by simp
qed

text \<open>
  The claim C2 as written says that the empty folds of \<open>k > n\<close> are the trailing ones. On
  one row and two folds the empty fold is the first, and the last fold holds the row.
\<close>

theorem split_reports_trailing_counterexample:
  "length [report_A] < 2
   \<and> fold_ranges \<lparr>primer_folds = Some 2\<rparr> (length [report_A]) = [(0, 0), (0, 1)]
   \<and> split_reports \<lparr>primer_folds = Some 2\<rparr> [report_A] = [[], [report_A]]
   \<and> last (split_reports \<lparr>primer_folds = Some 2\<rparr> [report_A]) \<noteq> []"
  by (simp add: split_reports_def fold_ranges_def fold_bounds_def or_1_def iloc_def
      slice_bound_def upto_rec1)

text \<open>
  C3. For every corpus and every fold count \<open>k \<ge> 1\<close> the largest and the smallest fold
  differ in size by at most one.
\<close>

theorem fold_sizes_balanced:
  assumes "1 \<le> k"
  shows "fold_sizes \<lparr>primer_folds = Some (int k)\<rparr> rows \<noteq> []
    \<and> Min (set (fold_sizes \<lparr>primer_folds = Some (int k)\<rparr> rows))
        \<le> Max (set (fold_sizes \<lparr>primer_folds = Some (int k)\<rparr> rows))
    \<and> Max (set (fold_sizes \<lparr>primer_folds = Some (int k)\<rparr> rows))
        - Min (set (fold_sizes \<lparr>primer_folds = Some (int k)\<rparr> rows)) \<le> 1"
proof -
  let ?S = "fold_sizes \<lparr>primer_folds = Some (int k)\<rparr> rows"
  let ?q = "length rows div k"
  from assms have k: "0 < k" by simp
  have S: "?S = map (\<lambda>i. cut (length rows) k (Suc i) - cut (length rows) k i) [0..<k]"
    using k by (rule fold_sizes_nat)
  have ne: "?S \<noteq> []" using k by (simp add: S)
  have bounds: "?q \<le> s \<and> s \<le> ?q + 1" if "s \<in> set ?S" for s
    using that size_bounds [OF k, of "length rows"] by (auto simp: S)
  from ne have "Max (set ?S) \<in> set ?S" and "Min (set ?S) \<in> set ?S"
    by (simp_all add: Max_in Min_in)
  then have "Max (set ?S) \<le> ?q + 1" and "?q \<le> Min (set ?S)"
    using bounds by blast+
  moreover from ne have "Min (set ?S) \<le> Max (set ?S)"
    by (simp add: Min_le_iff)
  ultimately show ?thesis using ne by linarith
qed

theorem fold_sizes_balanced_witness:
  "(1::nat) \<le> 3 \<and> fold_sizes \<lparr>primer_folds = Some (int 3)\<rparr> ''abcdefghij'' = [3, 3, 4]
   \<and> Max (set (fold_sizes \<lparr>primer_folds = Some (int 3)\<rparr> ''abcdefghij''))
       - Min (set (fold_sizes \<lparr>primer_folds = Some (int 3)\<rparr> ''abcdefghij'')) \<le> 1"
proof -
  have h: "(1::nat) \<le> 3" by simp
  have v: "fold_sizes \<lparr>primer_folds = Some (int 3)\<rparr> ''abcdefghij'' = [3, 3, 4]"
    by (simp add: fold_sizes_def split_reports_def fold_ranges_def fold_bounds_def or_1_def
        iloc_def slice_bound_def upto_rec1)
  from fold_sizes_balanced [OF h, of "''abcdefghij''"] v show ?thesis by simp
qed

text \<open>
  C8. A fold count of 0, or none, is a fold count of 1: a single fold that is the whole
  corpus.
\<close>

theorem split_reports_zero_folds:
  "split_reports \<lparr>primer_folds = Some 0\<rparr> rows = split_reports \<lparr>primer_folds = Some 1\<rparr> rows
   \<and> split_reports \<lparr>primer_folds = None\<rparr> rows = split_reports \<lparr>primer_folds = Some 1\<rparr> rows
   \<and> split_reports \<lparr>primer_folds = Some 1\<rparr> rows = [rows]"
  by (simp add: split_reports_def fold_ranges_def fold_bounds_def or_1_def iloc_def
      slice_bound_def)

section \<open>Properties of the orchestrator\<close>

subsection \<open>Gathering\<close>

lemma sort_by_tag:
  assumes ys: "distinct (map fst ys)"
    and zs: "sorted (map fst zs)" "distinct (map fst zs)"
    and same: "set ys = set zs"
  shows "sort_key fst ys = zs"
proof -
  let ?xs = "sort_key fst ys"
  have inj: "inj_on fst (set zs)" using zs(2) by (simp add: distinct_map)
  have "distinct ys" using ys by (simp add: distinct_map)
  then have "distinct (map fst ?xs)" using inj same by (simp add: distinct_map)
  moreover have "sorted (map fst ?xs)" by simp
  moreover have "set (map fst ?xs) = set (map fst zs)" using same by simp
  ultimately have "map fst ?xs = map fst zs"
    using zs by (intro sorted_distinct_set_unique)
  moreover have "inj_on fst (set ?xs \<union> set zs)" using inj same by simp
  ultimately show ?thesis by (rule map_inj_on)
qed

lemma await_all_Inr:
  "await_all xs = Inr res \<Longrightarrow> xs = map (\<lambda>(i, x). (i, Inr x)) res"
proof (induction xs arbitrary: res)
  case Nil
  then show ?case by simp
next
  case (Cons p xs)
  obtain i f where p: "p = (i, f)" by (cases p)
  from Cons.prems obtain x rest where f: "f = Inr x" and rest: "await_all xs = Inr rest"
    and res: "res = (i, x) # rest"
    by (auto simp: p split: sum.splits)
  from Cons.IH [OF rest] show ?case by (simp add: p f res)
qed

lemma await_all_Inl:
  "await_all xs = Inl e \<Longrightarrow> \<exists>i. (i, Inl e) \<in> set xs"
proof (induction xs)
  case Nil
  then show ?case by simp
next
  case (Cons p xs)
  obtain i f where p: "p = (i, f)" by (cases p)
  show ?case
  proof (cases f)
    case (Inl e')
    with Cons.prems show ?thesis by (auto simp: p)
  next
    case (Inr x)
    with Cons.prems have "await_all xs = Inl e" by (auto simp: p split: sum.splits)
    with Cons.IH show ?thesis by auto
  qed
qed

lemma tags_zip: "map fst (zip [0..<length fs] fs) = [0..<length fs]"
  by simp

lemma gather_Inr:
  assumes "gather latency fs = Inr rs"
  shows "fs = map Inr rs"
proof -
  let ?ifs = "zip [0..<length fs] fs"
  let ?untag = "\<lambda>(i, f). (i, projr f)"
  let ?tag = "\<lambda>(i, x). (i, Inr x :: error + 'a)"
  from assms obtain res where aw: "await_all (as_completed latency ?ifs) = Inr res"
    and rs: "rs = map snd (sort_key fst res)"
    by (auto simp: gather_def Let_def split: sum.splits)
  from await_all_Inr [OF aw] have comp: "as_completed latency ?ifs = map ?tag res" .
  have untag_tag: "map ?untag (map ?tag res) = res"
    by (induction res) auto
  from comp have res: "res = map ?untag (as_completed latency ?ifs)"
    using untag_tag by simp
  have "set (as_completed latency ?ifs) = set ?ifs"
    by (simp add: as_completed_def)
  then have "set ?ifs = set (map ?tag res)"
    by (simp only: comp)
  then have all_Inr: "f = Inr (projr f)" if "(i, f) \<in> set ?ifs" for i f
    using that by auto
  have fst_untag: "map fst (map ?untag xs) = map fst xs" for xs :: "(nat \<times> (error + 'a)) list"
    by (induction xs) auto
  have snd_untag: "map snd (map ?untag xs) = map projr (map snd xs)"
    for xs :: "(nat \<times> (error + 'a)) list"
    by (induction xs) auto
  have d_ifs: "distinct (map fst ?ifs)" by simp
  then have inj: "inj_on fst (set ?ifs)" and dd: "distinct ?ifs"
    unfolding distinct_map by blast+
  have "distinct (map fst (as_completed latency ?ifs))"
    unfolding distinct_map using inj dd by (simp add: as_completed_def)
  then have d_res: "distinct (map fst res)"
    by (simp only: res fst_untag)
  have s_zs: "sorted (map fst (map ?untag ?ifs))" "distinct (map fst (map ?untag ?ifs))"
    by (simp_all only: fst_untag tags_zip sorted_upt distinct_upt)
  have "set res = set (map ?untag ?ifs)"
    by (simp add: res as_completed_def)
  with d_res s_zs have "sort_key fst res = map ?untag ?ifs"
    by (intro sort_by_tag)
  then have "rs = map projr fs"
    by (simp only: rs snd_untag) simp
  moreover have "f = Inr (projr f)" if "f \<in> set fs" for f
  proof -
    from that obtain i where "i < length fs" and "fs ! i = f" by (auto simp: in_set_conv_nth)
    then have "?ifs ! i = (i, f)" and "i < length ?ifs" by simp_all
    then have "(i, f) \<in> set ?ifs" by (metis nth_mem)
    then show ?thesis by (rule all_Inr)
  qed
  ultimately show ?thesis by (simp add: map_idI)
qed

lemma gather_Inl:
  assumes "gather latency fs = Inl e"
  shows "Inl e \<in> set fs"
proof -
  from assms have "await_all (as_completed latency (zip [0..<length fs] fs)) = Inl e"
    by (auto simp: gather_def Let_def split: sum.splits)
  then obtain i where "(i, Inl e) \<in> set (as_completed latency (zip [0..<length fs] fs))"
    using await_all_Inl by blast
  then have "(i, Inl e) \<in> set (zip [0..<length fs] fs)"
    by (simp add: as_completed_def)
  then show ?thesis by (rule set_zip_rightD)
qed

lemma gather_raises:
  assumes "Inl e \<in> set fs"
  shows "\<exists>e'. gather latency fs = Inl e'"
proof (cases "gather latency fs")
  case (Inl e')
  then show ?thesis by blast
next
  case (Inr rs)
  from gather_Inr [OF Inr] assms show ?thesis by auto
qed

lemma gather_returns: "gather latency (map Inr rs) = Inr rs"
proof (cases "gather latency (map Inr rs)")
  case (Inl e)
  from gather_Inl [OF Inl] show ?thesis by auto
next
  case (Inr rs')
  from gather_Inr [OF Inr] have "map Inr rs = map (Inr :: 'a \<Rightarrow> error + 'a) rs'" .
  then have "rs = rs'" by (simp add: inj_map_eq_map)
  with Inr show ?thesis by simp
qed

subsection \<open>Searching\<close>

lemma length_tasks:
  "length (tasks self ext query rows) = length (split_reports (config self) rows)"
  by (simp add: tasks_def Let_def)

lemma nth_tasks:
  assumes "i < length (split_reports (config self) rows)"
  shows "tasks self ext query rows ! i
         = decompose_query self ext i query (split_reports (config self) rows ! i)"
  using assms by (simp add: tasks_def Let_def)

lemma asearch_Inr:
  assumes "asearch self ext latency t0 t1 query rows = Inr res"
  shows "\<exists>rwt. tasks self ext query rows = map Inr rwt \<and> response res = map fst rwt
           \<and> prompt_tokens res = sum_list (map snd rwt) \<and> llm_calls res = 2"
proof -
  from assms obtain rwt where g: "gather latency (tasks self ext query rows) = Inr rwt"
    and res: "res = \<lparr>response = map fst rwt,
                     context_data = [(''top_k_reports'', rows)],
                     context_text = frame_str ext rows,
                     completion_time = t1 - t0,
                     llm_calls = 2,
                     prompt_tokens = sum_list (map snd rwt)\<rparr>"
    by (auto simp: asearch_def Let_def split: sum.splits)
  from gather_Inr [OF g] res show ?thesis by auto
qed

lemma asearch_Inl:
  assumes "asearch self ext latency t0 t1 query rows = Inl e"
  shows "\<exists>i < length (split_reports (config self) rows).
           decompose_query self ext i query (split_reports (config self) rows ! i) = Inl e"
proof -
  from assms have "gather latency (tasks self ext query rows) = Inl e"
    by (auto simp: asearch_def Let_def split: sum.splits)
  then have "Inl e \<in> set (tasks self ext query rows)" by (rule gather_Inl)
  then obtain i where "i < length (tasks self ext query rows)"
    and "tasks self ext query rows ! i = Inl e"
    by (auto simp: in_set_conv_nth)
  then show ?thesis by (auto simp: length_tasks nth_tasks)
qed

lemma asearch_raises:
  assumes "i < length (split_reports (config self) rows)"
    and "decompose_query self ext i query (split_reports (config self) rows ! i) = Inl e"
  shows "\<exists>e'. asearch self ext latency t0 t1 query rows = Inl e'"
proof -
  from assms have "Inl e \<in> set (tasks self ext query rows)"
    by (metis length_tasks nth_tasks nth_mem)
  then obtain e' where "gather latency (tasks self ext query rows) = Inl e'"
    using gather_raises by blast
  then show ?thesis by (auto simp: asearch_def)
qed

text \<open>
  C4. Whatever the order in which the tasks complete, the \<open>i\<close>-th response of the result of
  \<^verbatim>\<open>asearch\<close> is the response that \<^verbatim>\<open>decompose_query\<close> returns for the \<open>i\<close>-th fold,
  and every other order of completion gives the same result.
\<close>

theorem asearch_response_order:
  assumes "asearch self ext latency t0 t1 query rows = Inr res"
  shows "length (response res) = length (split_reports (config self) rows)
    \<and> (\<forall>i < length (split_reports (config self) rows).
          \<exists>token_ct. decompose_query self ext i query (split_reports (config self) rows ! i)
                        = Inr (response res ! i, token_ct))
    \<and> (\<forall>latency'. asearch self ext latency' t0 t1 query rows = Inr res)"
proof -
  from assms obtain rwt where g: "gather latency (tasks self ext query rows) = Inr rwt"
    and res: "res = \<lparr>response = map fst rwt,
                     context_data = [(''top_k_reports'', rows)],
                     context_text = frame_str ext rows,
                     completion_time = t1 - t0,
                     llm_calls = 2,
                     prompt_tokens = sum_list (map snd rwt)\<rparr>"
    by (auto simp: asearch_def Let_def split: sum.splits)
  from gather_Inr [OF g] have t: "tasks self ext query rows = map Inr rwt" .
  then have len: "length rwt = length (split_reports (config self) rows)"
    using length_tasks [of self ext query rows] by simp
  have c1: "length (response res) = length (split_reports (config self) rows)"
    using len by (simp add: res)
  have c2: "\<exists>token_ct. decompose_query self ext i query (split_reports (config self) rows ! i)
                        = Inr (response res ! i, token_ct)"
    if "i < length (split_reports (config self) rows)" for i
  proof -
    from that have "decompose_query self ext i query (split_reports (config self) rows ! i)
                    = map Inr rwt ! i"
      using nth_tasks [of i self rows ext query] t by simp
    also have "\<dots> = Inr (rwt ! i)" using that len by simp
    also have "rwt ! i = (response res ! i, snd (rwt ! i))" using that len by (simp add: res)
    finally show ?thesis by blast
  qed
  have c3: "asearch self ext latency' t0 t1 query rows = Inr res" for latency'
    using gather_returns [of latency' rwt] by (simp add: asearch_def t res)
  from c1 c2 c3 show ?thesis by blast
qed

theorem asearch_response_order_witness:
  "asearch (toy_primer toy_llm (Some 2)) toy_externals reversed_latency 1 3 ''q''
       [report_A, report_B, report_C]
     = Inr (projr (asearch (toy_primer toy_llm (Some 2)) toy_externals reversed_latency 1 3 ''q''
                     [report_A, report_B, report_C]))
   \<and> split_reports (config (toy_primer toy_llm (Some 2))) [report_A, report_B, report_C]
       = [[report_A], [report_B, report_C]]
   \<and> response (projr (asearch (toy_primer toy_llm (Some 2)) toy_externals
        reversed_latency 1 3 ''q'' [report_A, report_B, report_C]))
       = [[CHR 0x7B] @ ''q:A'' @ [CHR 0x7D], [CHR 0x7B] @ ''q:B'' @ nl @ nl @ ''C'' @ [CHR 0x7D]]
   \<and> fst (projr (decompose_query (toy_primer toy_llm (Some 2)) toy_externals 0 ''q'' [report_A]))
       = response (projr (asearch (toy_primer toy_llm (Some 2)) toy_externals
           reversed_latency 1 3 ''q'' [report_A, report_B, report_C])) ! 0"
proof -
  let ?P = "toy_primer toy_llm (Some 2)"
  let ?rows = "[report_A, report_B, report_C]"
  have s: "split_reports (config ?P) ?rows = [[report_A], [report_B, report_C]]"
    by (simp add: toy_primer_def split_reports_def fold_ranges_def fold_bounds_def or_1_def
        iloc_def slice_bound_def upto_rec1)
  have d0: "decompose_query ?P toy_externals 0 ''q'' [report_A]
            = Inr ([CHR 0x7B] @ ''q:A'' @ [CHR 0x7D], 24)"
    by (simp add: decompose_query_def primer_messages_def primer_prompt_def toy_primer_def
        toy_llm_def echo_agenerate_def toy_externals_def toy_json_loads_def toy_format_def
        toy_num_tokens_def report_A_def)
  have d1: "decompose_query ?P toy_externals 1 ''q'' [report_B, report_C]
            = Inr ([CHR 0x7B] @ ''q:B'' @ nl @ nl @ ''C'' @ [CHR 0x7D], 42)"
    by (simp add: decompose_query_def primer_messages_def primer_prompt_def toy_primer_def
        toy_llm_def echo_agenerate_def toy_externals_def toy_json_loads_def toy_format_def
        toy_num_tokens_def report_B_def report_C_def nl_def)
  have t: "tasks ?P toy_externals ''q'' ?rows
           = [Inr ([CHR 0x7B] @ ''q:A'' @ [CHR 0x7D], 24),
              Inr ([CHR 0x7B] @ ''q:B'' @ nl @ nl @ ''C'' @ [CHR 0x7D], 42)]"
    unfolding tasks_def Let_def s using d0 d1 by (simp add: upt_rec)
  have g: "gather reversed_latency (tasks ?P toy_externals ''q'' ?rows)
           = Inr [([CHR 0x7B] @ ''q:A'' @ [CHR 0x7D], 24),
                  ([CHR 0x7B] @ ''q:B'' @ nl @ nl @ ''C'' @ [CHR 0x7D], 42)]"
    unfolding t by (simp add: gather_def as_completed_def reversed_latency_def upt_rec)
  have v: "asearch ?P toy_externals reversed_latency 1 3 ''q'' ?rows
           = Inr (projr (asearch ?P toy_externals reversed_latency 1 3 ''q'' ?rows))"
    unfolding asearch_def g by simp
  from asearch_response_order [OF v]
  have len: "length (response (projr (asearch ?P toy_externals reversed_latency 1 3 ''q'' ?rows)))
             = length (split_reports (config ?P) ?rows)"
    and nth: "\<forall>i < length (split_reports (config ?P) ?rows).
          \<exists>token_ct. decompose_query ?P toy_externals i ''q'' (split_reports (config ?P) ?rows ! i)
             = Inr (response (projr (asearch ?P toy_externals reversed_latency 1 3 ''q'' ?rows)) ! i,
                    token_ct)"
    by blast+
  from nth [rule_format, of 0]
  have "fst (projr (decompose_query ?P toy_externals 0 ''q'' [report_A]))
        = response (projr (asearch ?P toy_externals reversed_latency 1 3 ''q'' ?rows)) ! 0"
    unfolding s by auto
  moreover have "response (projr (asearch ?P toy_externals reversed_latency 1 3 ''q'' ?rows))
       = [[CHR 0x7B] @ ''q:A'' @ [CHR 0x7D], [CHR 0x7B] @ ''q:B'' @ nl @ nl @ ''C'' @ [CHR 0x7D]]"
    unfolding asearch_def g by simp
  ultimately show ?thesis using s v by simp
qed

text \<open>
  C5. When the answer of the model for some fold is not a document that \<^verbatim>\<open>json.loads\<close>
  accepts, \<^verbatim>\<open>decompose_query\<close> raises the decoding error for that fold and
  \<^verbatim>\<open>asearch\<close> raises: there is no result, whatever the other folds return and whatever
  the order of completion.
\<close>

theorem asearch_decode_failure:
  assumes "i < length (split_reports (config self) rows)"
    and "agenerate (llm self) i
           (primer_messages ext query (split_reports (config self) rows ! i)) json_object
         = Inr raw"
    and "json_loads ext raw = Inl e"
  shows "decompose_query self ext i query (split_reports (config self) rows ! i) = Inl e
    \<and> (\<exists>e'. asearch self ext latency t0 t1 query rows = Inl e')
    \<and> (\<forall>res. asearch self ext latency t0 t1 query rows \<noteq> Inr res)"
proof -
  have d: "decompose_query self ext i query (split_reports (config self) rows ! i) = Inl e"
    using assms(2,3) by (simp add: decompose_query_def Let_def)
  from asearch_raises [OF assms(1) d]
  obtain e' where "asearch self ext latency t0 t1 query rows = Inl e'" by blast
  with d show ?thesis by simp
qed

theorem asearch_decode_failure_witness:
  "(1::nat) < length (split_reports (config (toy_primer garbled_llm (Some 2)))
                       [report_A, report_B, report_C])
   \<and> agenerate (llm (toy_primer garbled_llm (Some 2))) 1
        (primer_messages toy_externals ''q''
           (split_reports (config (toy_primer garbled_llm (Some 2)))
              [report_A, report_B, report_C] ! 1)) json_object
       = Inr ''not a document''
   \<and> json_loads toy_externals ''not a document'' = Inl JSONDecodeError
   \<and> decompose_query (toy_primer garbled_llm (Some 2)) toy_externals 0 ''q''
        (split_reports (config (toy_primer garbled_llm (Some 2)))
           [report_A, report_B, report_C] ! 0)
       = Inr ([CHR 0x7B] @ ''q:A'' @ [CHR 0x7D], 24)
   \<and> (\<exists>e'. asearch (toy_primer garbled_llm (Some 2)) toy_externals reversed_latency 1 3 ''q''
              [report_A, report_B, report_C] = Inl e')"
proof -
  let ?P = "toy_primer garbled_llm (Some 2)"
  let ?rows = "[report_A, report_B, report_C]"
  have s: "split_reports (config ?P) ?rows = [[report_A], [report_B, report_C]]"
    by (simp add: toy_primer_def split_reports_def fold_ranges_def fold_bounds_def or_1_def
        iloc_def slice_bound_def upto_rec1)
  have h1: "(1::nat) < length (split_reports (config ?P) ?rows)"
    by (simp add: s)
  have h2: "agenerate (llm ?P) 1
              (primer_messages toy_externals ''q'' (split_reports (config ?P) ?rows ! 1))
              json_object
            = Inr ''not a document''"
    by (simp add: toy_primer_def garbled_llm_def garbled_agenerate_def)
  have h3: "json_loads toy_externals ''not a document'' = Inl JSONDecodeError"
    by (simp add: toy_externals_def toy_json_loads_def)
  have d0: "decompose_query ?P toy_externals 0 ''q'' (split_reports (config ?P) ?rows ! 0)
            = Inr ([CHR 0x7B] @ ''q:A'' @ [CHR 0x7D], 24)"
    unfolding s
    by (simp add: decompose_query_def primer_messages_def primer_prompt_def toy_primer_def
        garbled_llm_def garbled_agenerate_def echo_agenerate_def toy_externals_def
        toy_json_loads_def toy_format_def toy_num_tokens_def report_A_def)
  from asearch_decode_failure [OF h1 h2 h3, of reversed_latency 1 3] h1 h2 h3 d0
  show ?thesis by blast
qed

text \<open>
  C6. An empty fold is not an error. The context block of an empty fold is the empty
  string, so its prompt is the template rendered at the query and the empty string. On an
  empty corpus with \<^verbatim>\<open>primer_folds = 2\<close> there are two empty folds; \<^verbatim>\<open>asearch\<close>
  raises only what the model or the parser raises for one of the two calls, and when both
  calls return documents it returns a result with these two entries.
\<close>

theorem asearch_empty_corpus:
  assumes "primer_folds (config self) = Some 2"
  shows "primer_prompt ext query [] = DRIFT_PRIMER_PROMPT_format ext query []
    \<and> split_reports (config self) [] = [[], []]
    \<and> (\<forall>e. asearch self ext latency t0 t1 query [] = Inl e \<longrightarrow>
          (\<exists>i<2. agenerate (llm self) i (primer_messages ext query []) json_object = Inl e
             \<or> (\<exists>raw. agenerate (llm self) i (primer_messages ext query []) json_object = Inr raw
                   \<and> json_loads ext raw = Inl e)))
    \<and> (\<forall>raw0 raw1 d0 d1.
          agenerate (llm self) 0 (primer_messages ext query []) json_object = Inr raw0
          \<and> json_loads ext raw0 = Inr d0
          \<and> agenerate (llm self) 1 (primer_messages ext query []) json_object = Inr raw1
          \<and> json_loads ext raw1 = Inr d1
          \<longrightarrow> (\<exists>res. asearch self ext latency t0 t1 query [] = Inr res
                      \<and> response res = [d0, d1] \<and> length (response res) = 2))"
proof -
  have c1: "primer_prompt ext query [] = DRIFT_PRIMER_PROMPT_format ext query []"
    by (simp add: primer_prompt_def)
  have s: "split_reports (config self) [] = [[], []]"
    using assms
    by (simp add: split_reports_def fold_ranges_def fold_bounds_def or_1_def iloc_def
        slice_bound_def upto_rec1)
  have c3: "\<exists>i<2. agenerate (llm self) i (primer_messages ext query []) json_object = Inl e
             \<or> (\<exists>raw. agenerate (llm self) i (primer_messages ext query []) json_object = Inr raw
                   \<and> json_loads ext raw = Inl e)"
    if "asearch self ext latency t0 t1 query [] = Inl e" for e
  proof -
    from asearch_Inl [OF that] obtain i where i': "i < length [[], [] :: CommunityReport list]"
      and d': "decompose_query self ext i query ([[], []] ! i) = Inl e"
      unfolding s by blast
    from i' have i: "i < 2" by simp
    then have "[[], [] :: CommunityReport list] ! i = []" by (cases i) simp_all
    with d' have d: "decompose_query self ext i query [] = Inl e" by simp
    from d have "agenerate (llm self) i (primer_messages ext query []) json_object = Inl e
             \<or> (\<exists>raw. agenerate (llm self) i (primer_messages ext query []) json_object = Inr raw
                   \<and> json_loads ext raw = Inl e)"
      by (auto simp: decompose_query_def Let_def split: sum.splits)
    with i show ?thesis by blast
  qed
  have c4: "\<exists>res. asearch self ext latency t0 t1 query [] = Inr res
              \<and> response res = [d0, d1] \<and> length (response res) = 2"
    if "agenerate (llm self) 0 (primer_messages ext query []) json_object = Inr raw0
          \<and> json_loads ext raw0 = Inr d0
          \<and> agenerate (llm self) 1 (primer_messages ext query []) json_object = Inr raw1
          \<and> json_loads ext raw1 = Inr d1" for raw0 raw1 d0 d1
  proof -
    let ?c0 = "num_tokens ext (primer_prompt ext query [] @ raw0) (primer_token_encoder self)"
    let ?c1 = "num_tokens ext (primer_prompt ext query [] @ raw1) (primer_token_encoder self)"
    from that have "tasks self ext query [] = map Inr [(d0, ?c0), (d1, ?c1)]"
      unfolding tasks_def Let_def s by (simp add: decompose_query_def Let_def upt_rec)
    then have "gather latency (tasks self ext query []) = Inr [(d0, ?c0), (d1, ?c1)]"
      by (simp only: gather_returns)
    then show ?thesis by (simp add: asearch_def)
  qed
  from c1 s c3 c4 show ?thesis by blast
qed

theorem asearch_empty_corpus_witness:
  "primer_folds (config (toy_primer toy_llm (Some 2))) = Some 2
   \<and> split_reports (config (toy_primer toy_llm (Some 2))) [] = [[], []]
   \<and> agenerate (llm (toy_primer toy_llm (Some 2))) 0 (primer_messages toy_externals ''q'' [])
        json_object = Inr ([CHR 0x7B] @ ''q:'' @ [CHR 0x7D])
   \<and> agenerate (llm (toy_primer toy_llm (Some 2))) 1 (primer_messages toy_externals ''q'' [])
        json_object = Inr ([CHR 0x7B] @ ''q:'' @ [CHR 0x7D])
   \<and> json_loads toy_externals ([CHR 0x7B] @ ''q:'' @ [CHR 0x7D])
       = Inr ([CHR 0x7B] @ ''q:'' @ [CHR 0x7D])
   \<and> (\<exists>res. asearch (toy_primer toy_llm (Some 2)) toy_externals reversed_latency 1 3 ''q'' []
               = Inr res
             \<and> response res = [[CHR 0x7B] @ ''q:'' @ [CHR 0x7D], [CHR 0x7B] @ ''q:'' @ [CHR 0x7D]])"
proof -
  let ?P = "toy_primer toy_llm (Some 2)"
  let ?raw = "[CHR 0x7B] @ ''q:'' @ [CHR 0x7D]"
  have h: "primer_folds (config ?P) = Some 2"
    by (simp add: toy_primer_def)
  have a: "agenerate (llm ?P) i (primer_messages toy_externals ''q'' []) json_object = Inr ?raw"
    for i
    by (simp add: toy_primer_def toy_llm_def echo_agenerate_def primer_messages_def
        primer_prompt_def toy_externals_def toy_format_def)
  have j: "json_loads toy_externals ?raw = Inr ?raw"
    by (simp add: toy_externals_def toy_json_loads_def)
  from asearch_empty_corpus [OF h, of toy_externals "''q''" reversed_latency 1 3]
  have "split_reports (config ?P) [] = [[], []]"
    and "\<exists>res. asearch ?P toy_externals reversed_latency 1 3 ''q'' [] = Inr res
           \<and> response res = [?raw, ?raw]"
    using a j by blast+
  with h a j show ?thesis by blast
qed

text \<open>
  C7. The \<^verbatim>\<open>prompt_tokens\<close> of the result of \<^verbatim>\<open>asearch\<close> is the sum of the token
  counts that \<^verbatim>\<open>decompose_query\<close> returns for the folds, and \<^verbatim>\<open>llm_calls\<close> is 2
  whatever the number of folds.
\<close>

theorem asearch_token_accounting:
  assumes "asearch self ext latency t0 t1 query rows = Inr res"
  shows "llm_calls res = 2
    \<and> (\<exists>counts. length counts = length (split_reports (config self) rows)
          \<and> (\<forall>i < length counts.
                \<exists>parsed. decompose_query self ext i query (split_reports (config self) rows ! i)
                           = Inr (parsed, counts ! i))
          \<and> prompt_tokens res = sum_list counts)"
proof -
  from asearch_Inr [OF assms] obtain rwt where t: "tasks self ext query rows = map Inr rwt"
    and p: "prompt_tokens res = sum_list (map snd rwt)" and c: "llm_calls res = 2"
    by blast
  from t have len: "length rwt = length (split_reports (config self) rows)"
    using length_tasks [of self ext query rows] by simp
  have "\<exists>parsed. decompose_query self ext i query (split_reports (config self) rows ! i)
                   = Inr (parsed, map snd rwt ! i)"
    if "i < length (map snd rwt)" for i
  proof -
    from that len have i: "i < length (split_reports (config self) rows)" by simp
    then have "decompose_query self ext i query (split_reports (config self) rows ! i)
               = map Inr rwt ! i"
      using nth_tasks [of i self rows ext query] t by simp
    also have "\<dots> = Inr (fst (rwt ! i), map snd rwt ! i)" using that by simp
    finally show ?thesis by blast
  qed
  then have "length (map snd rwt) = length (split_reports (config self) rows)
          \<and> (\<forall>i < length (map snd rwt).
                \<exists>parsed. decompose_query self ext i query (split_reports (config self) rows ! i)
                           = Inr (parsed, map snd rwt ! i))
          \<and> prompt_tokens res = sum_list (map snd rwt)"
    using len p by simp
  then show ?thesis using c by blast
qed

theorem asearch_token_accounting_witness:
  "asearch (toy_primer toy_llm (Some 2)) toy_externals reversed_latency 1 3 ''q''
       [report_A, report_B, report_C]
     = Inr (projr (asearch (toy_primer toy_llm (Some 2)) toy_externals reversed_latency 1 3 ''q''
                     [report_A, report_B, report_C]))
   \<and> llm_calls (projr (asearch (toy_primer toy_llm (Some 2)) toy_externals reversed_latency
        1 3 ''q'' [report_A, report_B, report_C])) = 2
   \<and> prompt_tokens (projr (asearch (toy_primer toy_llm (Some 2)) toy_externals reversed_latency
        1 3 ''q'' [report_A, report_B, report_C])) = 24 + 42
   \<and> snd (projr (decompose_query (toy_primer toy_llm (Some 2)) toy_externals 0 ''q''
        [report_A])) = 24
   \<and> snd (projr (decompose_query (toy_primer toy_llm (Some 2)) toy_externals 1 ''q''
        [report_B, report_C])) = 42"
proof -
  let ?P = "toy_primer toy_llm (Some 2)"
  let ?rows = "[report_A, report_B, report_C]"
  have s: "split_reports (config ?P) ?rows = [[report_A], [report_B, report_C]]"
    by (simp add: toy_primer_def split_reports_def fold_ranges_def fold_bounds_def or_1_def
        iloc_def slice_bound_def upto_rec1)
  have d0: "decompose_query ?P toy_externals 0 ''q'' [report_A]
            = Inr ([CHR 0x7B] @ ''q:A'' @ [CHR 0x7D], 24)"
    by (simp add: decompose_query_def primer_messages_def primer_prompt_def toy_primer_def
        toy_llm_def echo_agenerate_def toy_externals_def toy_json_loads_def toy_format_def
        toy_num_tokens_def report_A_def)
  have d1: "decompose_query ?P toy_externals 1 ''q'' [report_B, report_C]
            = Inr ([CHR 0x7B] @ ''q:B'' @ nl @ nl @ ''C'' @ [CHR 0x7D], 42)"
    by (simp add: decompose_query_def primer_messages_def primer_prompt_def toy_primer_def
        toy_llm_def echo_agenerate_def toy_externals_def toy_json_loads_def toy_format_def
        toy_num_tokens_def report_B_def report_C_def nl_def)
  have t: "tasks ?P toy_externals ''q'' ?rows
           = [Inr ([CHR 0x7B] @ ''q:A'' @ [CHR 0x7D], 24),
              Inr ([CHR 0x7B] @ ''q:B'' @ nl @ nl @ ''C'' @ [CHR 0x7D], 42)]"
    unfolding tasks_def Let_def s using d0 d1 by (simp add: upt_rec)
  have g: "gather reversed_latency (tasks ?P toy_externals ''q'' ?rows)
           = Inr [([CHR 0x7B] @ ''q:A'' @ [CHR 0x7D], 24),
                  ([CHR 0x7B] @ ''q:B'' @ nl @ nl @ ''C'' @ [CHR 0x7D], 42)]"
    unfolding t by (simp add: gather_def as_completed_def reversed_latency_def upt_rec)
  have v: "asearch ?P toy_externals reversed_latency 1 3 ''q'' ?rows
           = Inr (projr (asearch ?P toy_externals reversed_latency 1 3 ''q'' ?rows))"
    unfolding asearch_def g by simp
  have p: "prompt_tokens (projr (asearch ?P toy_externals reversed_latency 1 3 ''q'' ?rows))
           = 24 + 42"
    unfolding asearch_def g by simp
  from asearch_token_accounting [OF v]
  have "llm_calls (projr (asearch ?P toy_externals reversed_latency 1 3 ''q'' ?rows)) = 2"
    by blast
  with v p d0 d1 show ?thesis by simp
qed

section \<open>Properties of the query expander\<close>

lemma expand_query_nonempty:
  assumes "reports self \<noteq> []"
  shows "expand_query self ext rnd query =
     (case generate (chat_llm self)
             (expand_messages query
                (full_content (reports self ! (rnd mod length (reports self))))) of
        Inl e \<Rightarrow>
          (Inl e, [Generate (expand_messages query
                     (full_content (reports self ! (rnd mod length (reports self)))))])
      | Inr text \<Rightarrow>
          if text = []
          then (Inr (query, num_tokens ext (text @ query) None),
                [Generate (expand_messages query
                    (full_content (reports self ! (rnd mod length (reports self))))),
                 LogWarning (''Failed to generate expansion for query: '' @ query)])
          else (Inr (text, num_tokens ext (text @ query) None),
                [Generate (expand_messages query
                    (full_content (reports self ! (rnd mod length (reports self)))))]))"
  using assms by (simp add: expand_query_def secrets_choice_def Let_def split: sum.splits)

text \<open>
  C1 (as amended). On a corpus that is not empty, when the completion of the model is the
  empty string, \<^verbatim>\<open>expand_query\<close> returns the query unchanged with the token count of
  the query itself, counted once, and logs the warning.
\<close>

theorem expand_query_fallback:
  assumes "reports self \<noteq> []"
    and "generate (chat_llm self)
           (expand_messages query
              (full_content (reports self ! (rnd mod length (reports self))))) = Inr []"
  shows "expand_query self ext rnd query =
     (Inr (query, num_tokens ext query None),
      [Generate (expand_messages query
          (full_content (reports self ! (rnd mod length (reports self))))),
       LogWarning (''Failed to generate expansion for query: '' @ query)])"
  using assms(2) by (simp add: expand_query_nonempty [OF assms(1)])

theorem expand_query_fallback_witness:
  "reports (toy_processor [report_A]) \<noteq> []
   \<and> generate (chat_llm (toy_processor [report_A]))
        (expand_messages ''hi''
           (full_content (reports (toy_processor [report_A])
              ! (0 mod length (reports (toy_processor [report_A])))))) = Inr []
   \<and> fst (expand_query (toy_processor [report_A]) toy_externals 0 ''hi'') = Inr (''hi'', 2)"
proof -
  have h1: "reports (toy_processor [report_A]) \<noteq> []"
    by (simp add: toy_processor_def)
  have h2: "generate (chat_llm (toy_processor [report_A]))
        (expand_messages ''hi''
           (full_content (reports (toy_processor [report_A])
              ! (0 mod length (reports (toy_processor [report_A])))))) = Inr []"
    by (simp add: toy_processor_def toy_llm_def silent_generate_def)
  have "num_tokens toy_externals ''hi'' None = 2"
    by (simp add: toy_externals_def toy_num_tokens_def)
  with expand_query_fallback [OF h1 h2, of toy_externals] h1 h2 show ?thesis by simp
qed

text \<open>
  The claim C1 as written gives the token count of the query counted twice. With the
  counter that counts characters, the query \<open>hi\<close> and a model that completes with the empty
  string, \<^verbatim>\<open>expand_query\<close> returns the count 2, and the query counted twice has 4.
\<close>

theorem expand_query_twice_counterexample:
  "generate (chat_llm (toy_processor [report_A]))
       (expand_messages ''hi'' (full_content report_A)) = Inr []
   \<and> fst (expand_query (toy_processor [report_A]) toy_externals 0 ''hi'') = Inr (''hi'', 2)
   \<and> num_tokens toy_externals (''hi'' @ ''hi'') None = 4
   \<and> fst (expand_query (toy_processor [report_A]) toy_externals 0 ''hi'')
       \<noteq> Inr (''hi'', num_tokens toy_externals (''hi'' @ ''hi'') None)"
  by (simp add: expand_query_def secrets_choice_def toy_processor_def toy_llm_def
      silent_generate_def toy_externals_def toy_num_tokens_def)

text \<open>
  C9. On an empty corpus \<^verbatim>\<open>expand_query\<close> raises the \<^verbatim>\<open>IndexError\<close> of the
  template draw; nothing has happened before: no model call and no warning. So the
  fallback is reached only on a corpus that is not empty.
\<close>

theorem expand_query_empty_corpus:
  assumes "reports self = []"
  shows "expand_query self ext rnd query = (Inl IndexError, [])
    \<and> (\<forall>messages. Generate messages \<notin> set (snd (expand_query self ext rnd query)))
    \<and> (\<forall>warning. LogWarning warning \<notin> set (snd (expand_query self ext rnd query)))"
  using assms by (simp add: expand_query_def secrets_choice_def)

theorem expand_query_empty_corpus_witness:
  "reports (toy_processor []) = []
   \<and> expand_query (toy_processor []) toy_externals 0 ''hi'' = (Inl IndexError, [])"
proof -
  have h: "reports (toy_processor []) = []"
    by (simp add: toy_processor_def)
  from expand_query_empty_corpus [OF h, of toy_externals 0 "''hi''"] h show ?thesis by simp
qed

text \<open>
  C10. \<^verbatim>\<open>expand_query\<close> does not depend on the token encoder of its processor: every
  count it returns is that of the default encoding. Every count that
  \<^verbatim>\<open>decompose_query\<close> returns is that of the token encoder of the primer.
\<close>

theorem token_encoder_use:
  "expand_query (self\<lparr>token_encoder := enc\<rparr>) ext rnd query = expand_query self ext rnd query
   \<and> (\<forall>text token_ct events.
         expand_query self ext rnd query = (Inr (text, token_ct), events) \<longrightarrow>
           (\<exists>out. generate (chat_llm self)
                     (expand_messages query
                        (full_content (reports self ! (rnd mod length (reports self)))))
                   = Inr out
                 \<and> token_ct = num_tokens ext (out @ query) None))
   \<and> (\<forall>parsed token_ct.
         decompose_query primer ext i query rows = Inr (parsed, token_ct) \<longrightarrow>
           (\<exists>raw. agenerate (llm primer) i (primer_messages ext query rows) json_object = Inr raw
                 \<and> token_ct = num_tokens ext (primer_prompt ext query rows @ raw)
                               (primer_token_encoder primer)))"
proof -
  have c1: "expand_query (self\<lparr>token_encoder := enc\<rparr>) ext rnd query
            = expand_query self ext rnd query"
    by (simp add: expand_query_def Let_def cong: sum.case_cong)
  have c2: "\<exists>out. generate (chat_llm self)
                     (expand_messages query
                        (full_content (reports self ! (rnd mod length (reports self)))))
                   = Inr out
                 \<and> token_ct = num_tokens ext (out @ query) None"
    if "expand_query self ext rnd query = (Inr (answer, token_ct), events)"
    for answer token_ct events
  proof (cases "reports self = []")
    case True
    with that show ?thesis by (simp add: expand_query_def secrets_choice_def)
  next
    case False
    from that show ?thesis
      unfolding expand_query_nonempty [OF False]
      by (auto split: sum.splits if_splits)
  qed
  have c3: "\<exists>raw. agenerate (llm primer) i (primer_messages ext query rows) json_object = Inr raw
                 \<and> token_ct = num_tokens ext (primer_prompt ext query rows @ raw)
                               (primer_token_encoder primer)"
    if "decompose_query primer ext i query rows = Inr (parsed, token_ct)" for parsed token_ct
    using that by (auto simp: decompose_query_def Let_def split: sum.splits)
  from c1 c2 c3 show ?thesis by blast
qed

theorem token_encoder_use_witness:
  "expand_query ((toy_processor [report_A])\<lparr>token_encoder := None\<rparr>) toy_externals 0 ''hi''
     = expand_query (toy_processor [report_A]) toy_externals 0 ''hi''
   \<and> token_encoder (toy_processor [report_A]) = Some 3
   \<and> fst (expand_query (toy_processor [report_A]) toy_externals 0 ''hi'') = Inr (''hi'', 2)
   \<and> primer_token_encoder (toy_primer toy_llm (Some 1)) = Some 3
   \<and> decompose_query (toy_primer toy_llm (Some 1)) toy_externals 0 ''q'' [report_A]
       = Inr ([CHR 0x7B] @ ''q:A'' @ [CHR 0x7D], 3 * 8)"
proof -
  have e: "fst (expand_query (toy_processor [report_A]) toy_externals 0 ''hi'') = Inr (''hi'', 2)"
    by (simp add: expand_query_def secrets_choice_def toy_processor_def toy_llm_def
        silent_generate_def toy_externals_def toy_num_tokens_def)
  have d: "decompose_query (toy_primer toy_llm (Some 1)) toy_externals 0 ''q'' [report_A]
           = Inr ([CHR 0x7B] @ ''q:A'' @ [CHR 0x7D], 3 * 8)"
    by (simp add: decompose_query_def primer_messages_def primer_prompt_def toy_primer_def
        toy_llm_def echo_agenerate_def toy_externals_def toy_json_loads_def toy_format_def
        toy_num_tokens_def report_A_def)
  have t: "token_encoder (toy_processor [report_A]) = Some 3"
    "primer_token_encoder (toy_primer toy_llm (Some 1)) = Some 3"
    by (simp_all add: toy_processor_def toy_primer_def)
  from token_encoder_use [where self = "toy_processor [report_A]" and enc = None
      and ext = toy_externals and rnd = 0 and query = "''hi''"]
  have "expand_query ((toy_processor [report_A])\<lparr>token_encoder := None\<rparr>) toy_externals 0 ''hi''
        = expand_query (toy_processor [report_A]) toy_externals 0 ''hi''"
    by blast
  with e d t show ?thesis by simp
qed

end
